theory Spec2Isabelle
  imports Main "HOL-Library.Sublist"
begin

section \<open>Sheet renaming with formula reference rewriting (sheet.py)\<close>

text \<open>
  The program loads a workbook, collects a dictionary from each sheet's current title to
  its new name (cut to 31 characters), assigns the new titles, compiles one regular
  expression from the dictionary's keys and substitutes every sheet reference in every
  formula cell. The "export one file" and "export all files" handlers contain the same
  code, so one model serves both.

  Python strings are modelled as \<^typ>\<open>string\<close>, one \<^typ>\<open>char\<close> per character of
  the Python string. The workbook object of the spreadsheet library is modelled by
  records holding the attributes the program reads and writes. Assigning
  \<^verbatim>\<open>sheet.title\<close> runs the library's setter for the title, which is modelled below;
  assigning \<^verbatim>\<open>cell.value\<close> is a field update.
\<close>

subsection \<open>Python values and errors\<close>

datatype py_error = KeyError | TypeError | ValueError

datatype pyval = PyNone | PyStr string | PyInt int

text \<open>Truth value of a Python object, as tested by \<^verbatim>\<open>if original_formula:\<close>.\<close>

fun truthy :: "pyval \<Rightarrow> bool" where
  "truthy PyNone = False"
| "truthy (PyStr s) = (s \<noteq> [])"
| "truthy (PyInt n) = (n \<noteq> 0)"

abbreviation quote :: char where
  "quote \<equiv> CHR 0x27"

abbreviation bang :: char where
  "bang \<equiv> CHR ''!''"

subsection \<open>Dictionaries in insertion order\<close>

text \<open>
  A Python \<^verbatim>\<open>dict\<close> keeps its keys in insertion order, and the order of
  \<^verbatim>\<open>sheet_name_mapping.keys()\<close> is the order of the alternation in the regular
  expression. The dictionary is an association list; storing under an existing key
  replaces the value in place, storing under a new key appends.
\<close>

type_synonym dict = "(string \<times> string) list"

fun dict_set :: "dict \<Rightarrow> string \<Rightarrow> string \<Rightarrow> dict" where
  "dict_set [] k v = [(k, v)]"
| "dict_set ((k', v') # m) k v = (if k' = k then (k, v) # m else (k', v') # dict_set m k v)"

definition dict_keys :: "dict \<Rightarrow> string list" where
  "dict_keys m = map fst m"

text \<open>\<^verbatim>\<open>mapping[key]\<close>, which raises \<^verbatim>\<open>KeyError\<close> on a missing key.\<close>

definition dict_item :: "dict \<Rightarrow> string \<Rightarrow> py_error + string" where
  "dict_item m k = (case map_of m k of None \<Rightarrow> Inl KeyError | Some v \<Rightarrow> Inr v)"

text \<open>\<^verbatim>\<open>mapping.get(key, default)\<close>.\<close>

definition dict_get :: "dict \<Rightarrow> string \<Rightarrow> string \<Rightarrow> string" where
  "dict_get m k d = (case map_of m k of None \<Rightarrow> d | Some v \<Rightarrow> v)"

subsection \<open>Name length limit\<close>

text \<open>\<^verbatim>\<open>new_name = new_name[:31]\<close>\<close>

definition sanitize :: "string \<Rightarrow> string" where
  "sanitize name = take 31 name"

subsection \<open>Default new names\<close>

text \<open>\<^verbatim>\<open>str(n)\<close> for a natural number, and the format \<^verbatim>\<open>{n:02d}\<close>: decimal digits,
  padded with zeros on the left to a width of at least two.\<close>

definition digit_char :: "nat \<Rightarrow> char" where
  "digit_char d = ''0123456789'' ! d"

fun str_nat :: "nat \<Rightarrow> string" where
  "str_nat n = (if n < 10 then [digit_char n] else str_nat (n div 10) @ [digit_char (n mod 10)])"




subsection \<open>The sheet reference pattern\<close>

text \<open>
  \<^verbatim>\<open>sheet_names_pattern = '|'.join(re.escape(name) for name in sheet_name_mapping.keys())\<close>
  \<^verbatim>\<open>sheet_ref_regex = re.compile(r"('?(%s)'?)!" % sheet_names_pattern)\<close>

  Each escaped name matches exactly its own characters, so the alternation is the list
  of names, tried in order. Joining no names gives the empty pattern, which matches the
  empty string: the alternation of no names behaves as the single empty name.
\<close>

definition sheet_names_pattern :: "dict \<Rightarrow> string list" where
  "sheet_names_pattern m = (if dict_keys m = [] then [[]] else dict_keys m)"

text \<open>
  The end of the pattern, \<^verbatim>\<open>'?)!\<close>, after a name has matched: the greedy optional
  quote is taken when the \<open>!\<close> follows it, and a text that begins with a quote cannot
  match the \<open>!\<close> without it. The result is the quote consumed.
\<close>

definition match_tail :: "string \<Rightarrow> string option" where
  "match_tail s =
     (if prefix [quote, bang] s then Some [quote]
      else if prefix [bang] s then Some []
      else None)"

text \<open>
  The alternation followed by the end of the pattern: the first name in order that
  matches the text and is followed by the end of the pattern wins; a name that matches
  but is not so followed is abandoned for the next one. The result is the text matched
  by the name and the following optional quote.
\<close>

fun match_names :: "string list \<Rightarrow> string \<Rightarrow> string option" where
  "match_names [] s = None"
| "match_names (n # ns) s =
     (if prefix n s then
        (case match_tail (drop (length n) s) of
           Some q \<Rightarrow> Some (n @ q)
         | None \<Rightarrow> match_names ns s)
      else match_names ns s)"

text \<open>
  A match attempt at the start of the text. The leading optional quote is greedy: when
  the text begins with a quote it is consumed first, and only if nothing matches after
  it is the attempt repeated without consuming it. The result is group 1 of the match;
  the match itself is group 1 followed by \<open>!\<close>.
\<close>

definition match_at :: "string list \<Rightarrow> string \<Rightarrow> string option" where
  "match_at names s =
     (if prefix [quote] s then
        (case match_names names (tl s) of
           Some g \<Rightarrow> Some (quote # g)
         | None \<Rightarrow> match_names names s)
      else match_names names s)"

text \<open>
  \<^verbatim>\<open>regex.sub(repl, text)\<close> with a function \<open>repl\<close>: the text is scanned from the left;
  where a match starts, it is replaced by \<open>repl\<close> of its group 1 and the scan goes on
  after the match; where none starts, the character is copied. A match is never empty,
  since it ends with \<open>!\<close>.
\<close>

fun sub :: "string list \<Rightarrow> (string \<Rightarrow> string) \<Rightarrow> string \<Rightarrow> string" where
  "sub names repl [] = []"
| "sub names repl (c # cs) =
     (case match_at names (c # cs) of
        Some g \<Rightarrow> repl g @ sub names repl (drop (length g) cs)
      | None \<Rightarrow> c # sub names repl cs)"

text \<open>The matches that \<^verbatim>\<open>sub\<close> replaces, with the characters between them.\<close>

datatype token = Lit char | Ref string

fun finditer :: "string list \<Rightarrow> string \<Rightarrow> token list" where
  "finditer names [] = []"
| "finditer names (c # cs) =
     (case match_at names (c # cs) of
        Some g \<Rightarrow> Ref g # finditer names (drop (length g) cs)
      | None \<Rightarrow> Lit c # finditer names cs)"

fun token_text :: "token \<Rightarrow> string" where
  "token_text (Lit c) = [c]"
| "token_text (Ref g) = g @ [bang]"

subsection \<open>Rewriting a formula\<close>

text \<open>\<^verbatim>\<open>sheet_ref.strip("'")\<close>: all leading and all trailing quotes are removed.\<close>

definition strip_quotes :: "string \<Rightarrow> string" where
  "strip_quotes s = rev (dropWhile (\<lambda>c. c = quote) (rev (dropWhile (\<lambda>c. c = quote) s)))"

text \<open>
  \<^verbatim>\<open>' ' in new_sheet_name or any(c in new_sheet_name for c in ('-', '+', '(', ')', '[', ']'))\<close>
\<close>

definition needs_quotes :: "string \<Rightarrow> bool" where
  "needs_quotes new_sheet_name =
     (CHR '' '' \<in> set new_sheet_name \<or> list_ex (\<lambda>c. c \<in> set new_sheet_name) ''-+()[]'')"

definition replacer :: "dict \<Rightarrow> string \<Rightarrow> string" where
  "replacer mapping sheet_ref =
     (let sheet_name = strip_quotes sheet_ref;
          new_sheet_name = dict_get mapping sheet_name sheet_name;
          new_sheet_name = (if needs_quotes new_sheet_name
                            then [quote] @ new_sheet_name @ [quote]
                            else new_sheet_name)
      in new_sheet_name @ [bang])"

text \<open>The regular expression is the one compiled from the keys of the same dictionary.\<close>

definition replace_sheet_names_in_formula :: "string \<Rightarrow> dict \<Rightarrow> string" where
  "replace_sheet_names_in_formula formula mapping =
     sub (sheet_names_pattern mapping) (replacer mapping) formula"

subsection \<open>The workbook\<close>

text \<open>
  A cell has a \<^verbatim>\<open>data_type\<close> (\<open>f\<close> for a formula cell) and a \<^verbatim>\<open>value\<close>, the
  formula text for a formula cell. A sheet has a \<^verbatim>\<open>title\<close> and the rows of cells that
  \<^verbatim>\<open>iter_rows()\<close> yields. Every other attribute of a cell or sheet is in the
  extension of the record.
\<close>

record cell =
  data_type :: string
  cell_value :: pyval

record 'c sheet =
  title :: string
  rows :: "'c cell_scheme list list"

text \<open>
  A \<^verbatim>\<open>for\<close> loop whose body mutates the current element in place and may raise: the
  result is the list as it stands when the loop ends, and the error if it ended by one.
  The elements after the one that raised are not visited.
\<close>

fun for_each :: "('a \<Rightarrow> 'a \<times> py_error option) \<Rightarrow> 'a list \<Rightarrow> 'a list \<times> py_error option" where
  "for_each body [] = ([], None)"
| "for_each body (x # xs) =
     (case body x of
        (x', Some e) \<Rightarrow> (x' # xs, Some e)
      | (x', None) \<Rightarrow> (case for_each body xs of (xs', r) \<Rightarrow> (x' # xs', r)))"

subsection \<open>Collecting the old and new names\<close>

text \<open>
  \<^verbatim>\<open>for idx, sheet in enumerate(wb.worksheets):\<close>
  \<^verbatim>\<open>    old_name = sheet.title\<close>
  \<^verbatim>\<open>    new_name = edited_df.at[idx, 'New Name']\<close>
  \<^verbatim>\<open>    new_name = new_name[:31]\<close>
  \<^verbatim>\<open>    sheet_name_mapping[old_name] = new_name\<close>

  The column of new names of the edited table is a partial map from index labels to
  strings; \<^verbatim>\<open>.at\<close> raises \<^verbatim>\<open>KeyError\<close> for a label that is not in the index. The
  workbook is not changed by this loop.
\<close>

fun collect_names ::
  "(nat \<rightharpoonup> string) \<Rightarrow> nat \<Rightarrow> ('c, 'z) sheet_scheme list \<Rightarrow> dict \<Rightarrow> py_error + dict" where
  "collect_names new_names idx [] sheet_name_mapping = Inr sheet_name_mapping"
| "collect_names new_names idx (sheet # sheets) sheet_name_mapping =
     (case new_names idx of
        None \<Rightarrow> Inl KeyError
      | Some new_name \<Rightarrow>
          collect_names new_names (Suc idx) sheets
            (dict_set sheet_name_mapping (title sheet) (sanitize new_name)))"

subsection \<open>The title setter of the workbook library\<close>

text \<open>
  The worksheets are those of a workbook read by \<^verbatim>\<open>load_workbook\<close>, and for them
  \<^verbatim>\<open>sheet.title = value\<close> runs the setter of the library's title property:

  \<^verbatim>\<open>if not value: raise ValueError(...)\<close>
  \<^verbatim>\<open>m = INVALID_TITLE_REGEX.search(value)\<close>
  \<^verbatim>\<open>if m: raise ValueError(...)\<close>
  \<^verbatim>\<open>if self.title is not None and self.title != value:\<close>
  \<^verbatim>\<open>    value = avoid_duplicate_name(self.parent.sheetnames, value)\<close>
  \<^verbatim>\<open>self.__title = value\<close>

  The invalid characters are the backslash and \<open>* ? : / [ ]\<close>. A title longer than 31
  characters only gives a warning. The sheet names the setter reads are the titles of the
  workbook's worksheets. A character is its code point, below 256: the upper-case
  letters are those at 65 to 90 and at 192 to 222 except 215, each 32 below its
  lower-case letter, and the digits are \<open>0\<close> to \<open>9\<close>.
\<close>

definition lower_char :: "char \<Rightarrow> char" where
  "lower_char c =
     (let n = of_char c :: nat
      in if (65 \<le> n \<and> n \<le> 90) \<or> (192 \<le> n \<and> n \<le> 222 \<and> n \<noteq> 215)
         then char_of (n + 32) else c)"

definition lower :: "string \<Rightarrow> string" where
  "lower s = map lower_char s"

definition invalid_title_chars :: string where
  "invalid_title_chars = CHR 0x5C # ''*?:/[]''"

definition is_digit :: "char \<Rightarrow> bool" where
  "is_digit c = (c \<in> set ''0123456789'')"

definition digit_value :: "char \<Rightarrow> nat" where
  "digit_value c = (case map_of (zip ''0123456789'' [0..<10]) c of None \<Rightarrow> 0 | Some d \<Rightarrow> d)"

text \<open>\<^verbatim>\<open>int(idx)\<close> for a string of digits.\<close>

definition int_of_digits :: "string \<Rightarrow> nat" where
  "int_of_digits idx = foldl (\<lambda>a c. 10 * a + digit_value c) 0 idx"

text \<open>\<^verbatim>\<open>",".join(names)\<close>\<close>

fun join_comma :: "string list \<Rightarrow> string" where
  "join_comma [] = []"
| "join_comma [n] = n"
| "join_comma (n # n' # ns) = n @ '','' @ join_comma (n' # ns)"

text \<open>
  What the pattern consumes after the title: the digits of the count, as many as there
  are, and then a comma if one follows. The result is the text after the match.
\<close>

definition after_count :: "string \<Rightarrow> string" where
  "after_count s =
     (let r = dropWhile is_digit s in if prefix '','' r then tl r else r)"

text \<open>
  \<^verbatim>\<open>sheet_title_regex.findall(names)\<close> for the pattern made of the escaped value, a group
  of digits and an optional comma, compiled to ignore case: the text is scanned from the
  left; where the value stands, whatever its case, the digits after it are the count of
  the match and the scan goes on after the match; elsewhere it goes on with the next
  character. The result lists the counts of the matches. The setter passes no empty value.
\<close>

function findall_counts :: "string \<Rightarrow> string \<Rightarrow> string list" where
  "findall_counts value [] = []"
| "findall_counts value (c # cs) =
     (if value \<noteq> [] \<and> lower (take (length value) (c # cs)) = lower value then
        takeWhile is_digit (drop (length value) (c # cs))
          # findall_counts value (after_count (drop (length value) (c # cs)))
      else findall_counts value cs)"
  by pat_completeness auto
termination
proof (relation "measure (\<lambda>(v, s). length s)")
  show "wf (measure (\<lambda>(v, s). length s))" by simp
next
  fix v :: string and c :: char and cs :: string
  assume a: "v \<noteq> [] \<and> lower (take (length v) (c # cs)) = lower v"
  have "length (dropWhile is_digit s) \<le> length s" for s :: string
    by (rule length_dropWhile_le)
  then have "length (after_count s) \<le> length s" for s :: string
    using le_SucI[of "length (dropWhile is_digit s)" "length s"]
    by (simp add: after_count_def Let_def le_diff_conv)
  then have "length (after_count (drop (length v) (c # cs)))
               \<le> length (drop (length v) (c # cs))" .
  moreover from a have "length (drop (length v) (c # cs)) < length (c # cs)"
    by (cases v) simp_all
  ultimately show "((v, after_count (drop (length v) (c # cs))), v, c # cs)
                     \<in> measure (\<lambda>(v, s). length s)"
    by simp
next
  fix v :: string and c :: char and cs :: string
  show "((v, cs), v, c # cs) \<in> measure (\<lambda>(v, s). length s)" by simp
qed

text \<open>
  \<^verbatim>\<open>match = [n for n in names if n.lower() == value.lower()]\<close>
  \<^verbatim>\<open>if match:\<close>
  \<^verbatim>\<open>    names = ",".join(names)\<close>
  \<^verbatim>\<open>    matches = sheet_title_regex.findall(names)\<close>
  \<^verbatim>\<open>    if matches:\<close>
  \<^verbatim>\<open>        counts = [int(idx) for (t, idx) in matches if idx.isdigit()]\<close>
  \<^verbatim>\<open>        highest = 0\<close>
  \<^verbatim>\<open>        if counts: highest = max(counts)\<close>
  \<^verbatim>\<open>        value = "{0}{1}".format(value, highest + 1)\<close>
  \<^verbatim>\<open>return value\<close>
\<close>

definition avoid_duplicate_name :: "string list \<Rightarrow> string \<Rightarrow> string" where
  "avoid_duplicate_name names value =
     (if list_ex (\<lambda>n. lower n = lower value) names then
        (let matches = findall_counts value (join_comma names) in
         if matches \<noteq> [] then
           (let counts = map int_of_digits (filter (\<lambda>idx. idx \<noteq> []) matches);
                highest = (if counts \<noteq> [] then fold max counts 0 else 0)
            in value @ str_nat (highest + 1))
         else value)
      else value)"

text \<open>
  The setter, given the workbook's sheet names and the sheet's current title: the error
  raised, or the title stored.
\<close>

definition set_title :: "string list \<Rightarrow> string \<Rightarrow> string \<Rightarrow> py_error + string" where
  "set_title sheetnames current value =
     (if value = [] then Inl ValueError
      else if list_ex (\<lambda>c. c \<in> set invalid_title_chars) value then Inl ValueError
      else Inr (if current \<noteq> value then avoid_duplicate_name sheetnames value else value))"

subsection \<open>Renaming\<close>

text \<open>
  \<^verbatim>\<open>for sheet in wb.worksheets:\<close>
  \<^verbatim>\<open>    sheet.title = sheet_name_mapping[sheet.title]\<close>

  The setter reads the names of all sheets of the workbook as they are when it runs, so
  the loop carries the sheets already visited, with their new titles, next to the sheets
  still to visit. The result is the workbook when the loop ends or raises.
\<close>

fun update_titles ::
  "dict \<Rightarrow> ('c, 'z) sheet_scheme list \<Rightarrow> ('c, 'z) sheet_scheme list
     \<Rightarrow> ('c, 'z) sheet_scheme list \<times> py_error option" where
  "update_titles sheet_name_mapping visited [] = (visited, None)"
| "update_titles sheet_name_mapping visited (sheet # sheets) =
     (case dict_item sheet_name_mapping (title sheet) of
        Inl e \<Rightarrow> (visited @ sheet # sheets, Some e)
      | Inr new_title \<Rightarrow>
          (case set_title (map title (visited @ sheet # sheets)) (title sheet) new_title of
             Inl e \<Rightarrow> (visited @ sheet # sheets, Some e)
           | Inr stored \<Rightarrow>
               update_titles sheet_name_mapping (visited @ [sheet\<lparr>title := stored\<rparr>]) sheets))"

text \<open>
  \<^verbatim>\<open>if cell.data_type == 'f':\<close>
  \<^verbatim>\<open>    original_formula = cell.value\<close>
  \<^verbatim>\<open>    if original_formula:\<close>
  \<^verbatim>\<open>        new_formula = replace_sheet_names_in_formula(original_formula, sheet_name_mapping)\<close>
  \<^verbatim>\<open>        cell.value = new_formula\<close>

  The substitution raises \<^verbatim>\<open>TypeError\<close> when the value is not a string.
\<close>

definition update_cell :: "dict \<Rightarrow> 'c cell_scheme \<Rightarrow> 'c cell_scheme \<times> py_error option" where
  "update_cell sheet_name_mapping cell =
     (if data_type cell = ''f'' then
        (let original_formula = cell_value cell in
         if truthy original_formula then
           (case original_formula of
              PyStr formula \<Rightarrow>
                (cell\<lparr>cell_value :=
                    PyStr (replace_sheet_names_in_formula formula sheet_name_mapping)\<rparr>, None)
            | _ \<Rightarrow> (cell, Some TypeError))
         else (cell, None))
      else (cell, None))"

text \<open>\<^verbatim>\<open>for row in sheet.iter_rows(): for cell in row: ...\<close>\<close>

definition update_formulas ::
  "dict \<Rightarrow> ('c, 'z) sheet_scheme \<Rightarrow> ('c, 'z) sheet_scheme \<times> py_error option" where
  "update_formulas sheet_name_mapping sheet =
     (case for_each (for_each (update_cell sheet_name_mapping)) (rows sheet) of
        (rows', r) \<Rightarrow> (sheet\<lparr>rows := rows'\<rparr>, r))"

text \<open>
  The two loops over \<^verbatim>\<open>wb.worksheets\<close> that follow the collection of the names: the
  titles first, then the formulas. The result is the workbook in memory when the code
  ends or raises, with the error raised.
\<close>

definition rename ::
  "('c, 'z) sheet_scheme list \<Rightarrow> dict \<Rightarrow> ('c, 'z) sheet_scheme list \<times> py_error option" where
  "rename wb sheet_name_mapping =
     (case update_titles sheet_name_mapping [] wb of
        (wb', Some e) \<Rightarrow> (wb', Some e)
      | (wb', None) \<Rightarrow> for_each (update_formulas sheet_name_mapping) wb')"

text \<open>The body of the \<^verbatim>\<open>try\<close> block, up to the point where the workbook is saved.\<close>

definition process_workbook ::
  "('c, 'z) sheet_scheme list \<Rightarrow> (nat \<rightharpoonup> string)
     \<Rightarrow> ('c, 'z) sheet_scheme list \<times> py_error option" where
  "process_workbook wb new_names =
     (case collect_names new_names 0 wb [] of
        Inl e \<Rightarrow> (wb, Some e)
      | Inr sheet_name_mapping \<Rightarrow> rename wb sheet_name_mapping)"

text \<open>
  The workbook is saved and offered for download only when nothing was raised; the
  \<^verbatim>\<open>except\<close> clause reports the error and the workbook in memory is dropped.
\<close>

definition export_workbook ::
  "('c, 'z) sheet_scheme list \<Rightarrow> (nat \<rightharpoonup> string) \<Rightarrow> py_error + ('c, 'z) sheet_scheme list" where
  "export_workbook wb new_names =
     (case process_workbook wb new_names of
        (wb', None) \<Rightarrow> Inr wb'
      | (wb', Some e) \<Rightarrow> Inl e)"

section \<open>Properties\<close>

subsection \<open>Dictionaries and loops\<close>


lemma dict_keys_dict_set:
  "dict_keys (dict_set m k v) = (if k \<in> set (dict_keys m) then dict_keys m else dict_keys m @ [k])"
  by (induction m k v rule: dict_set.induct) (auto simp: dict_keys_def)


lemma for_each_first_error:
  assumes "\<forall>y\<in>set pre. snd (body y) = None" and "snd (body x) = Some e"
  shows "for_each body (pre @ x # post) = (map (\<lambda>y. fst (body y)) pre @ fst (body x) # post, Some e)"
  using assms by (induction pre) (auto split: prod.splits option.splits)

lemma for_each_rel:
  assumes "\<And>x. x \<in> set xs \<Longrightarrow> R x (fst (body x))" and "\<And>x. x \<in> set xs \<Longrightarrow> R x x"
  shows "list_all2 R xs (fst (for_each body xs))"
  using assms
proof (induction xs)
  case Nil
  then show ?case by simp
next
  case (Cons x xs)
  have tl: "list_all2 R xs (fst (for_each body xs))"
    using Cons by simp
  have refl: "list_all2 R xs xs"
    using Cons.prems(2) by (simp add: list_all2_same)
  show ?case
    using Cons.prems(1)[of x] tl refl
    by (auto split: prod.splits option.splits)
qed

subsection \<open>The matcher\<close>

lemma match_tail_Some:
  "match_tail s = Some q \<longleftrightarrow> (q = [quote] \<and> prefix [quote, bang] s) \<or> (q = [] \<and> prefix [bang] s)"
  by (auto simp: match_tail_def prefix_def)


lemma match_names_Some:
  "match_names names s = Some g \<Longrightarrow>
     \<exists>n q. g = n @ q \<and> n \<in> set names \<and> (q = [] \<or> q = [quote]) \<and> prefix (g @ [bang]) s"
proof (induction names)
  case Nil
  then show ?case by simp
next
  case (Cons a names)
  show ?case
  proof (cases "prefix a s \<and> match_tail (drop (length a) s) \<noteq> None")
    case True
    then obtain q where q: "match_tail (drop (length a) s) = Some q" and pa: "prefix a s" by auto
    from pa obtain r where s: "s = a @ r" by (auto simp: prefix_def)
    from Cons.prems q pa have g: "g = a @ q" by simp
    from q s have "(q = [quote] \<and> prefix [quote, bang] r) \<or> (q = [] \<and> prefix [bang] r)"
      by (simp add: match_tail_Some)
    then have "prefix (g @ [bang]) s \<and> (q = [] \<or> q = [quote])"
      using g s by (auto simp: prefix_def)
    then show ?thesis using g by auto
  next
    case False
    then have "match_names names s = Some g"
      using Cons.prems by (auto split: option.splits if_splits)
    from Cons.IH[OF this] show ?thesis by auto
  qed
qed

lemma match_names_None:
  "match_names names s = None \<longleftrightarrow>
     (\<forall>n\<in>set names. \<not> prefix (n @ [bang]) s \<and> \<not> prefix (n @ [quote, bang]) s)"
proof (induction names)
  case Nil
  then show ?case by simp
next
  case (Cons a names)
  have "prefix a s \<and> match_tail (drop (length a) s) \<noteq> None \<longleftrightarrow>
        prefix (a @ [bang]) s \<or> prefix (a @ [quote, bang]) s"
    by (auto simp: match_tail_def prefix_def)
  then show ?case using Cons
    by (auto split: option.splits)
qed

lemma match_at_Some:
  assumes "match_at names s = Some g"
  shows "\<exists>q1 n q2. g = q1 @ n @ q2 \<and> n \<in> set names \<and> (q1 = [] \<or> q1 = [quote]) \<and>
           (q2 = [] \<or> q2 = [quote]) \<and> prefix (g @ [bang]) s"
proof (cases "prefix [quote] s \<and> match_names names (tl s) \<noteq> None")
  case True
  then obtain g' where g': "match_names names (tl s) = Some g'" by auto
  from True obtain r where s: "s = quote # r" by (auto simp: prefix_def)
  from assms True g' have g: "g = quote # g'" by (simp add: match_at_def)
  from match_names_Some[OF g'] obtain n q where
    "g' = n @ q" "n \<in> set names" "q = [] \<or> q = [quote]" "prefix (g' @ [bang]) (tl s)"
    by blast
  then have "g = [quote] @ n @ q \<and> n \<in> set names \<and> (q = [] \<or> q = [quote]) \<and> prefix (g @ [bang]) s"
    using g s by simp
  then show ?thesis by blast
next
  case False
  then have "match_names names s = Some g"
    using assms by (auto simp: match_at_def split: option.splits if_splits)
  from match_names_Some[OF this] obtain n q where
    "g = n @ q" "n \<in> set names" "q = [] \<or> q = [quote]" "prefix (g @ [bang]) s"
    by blast
  then have "g = [] @ n @ q \<and> n \<in> set names \<and> (q = [] \<or> q = [quote]) \<and> prefix (g @ [bang]) s"
    by simp
  then show ?thesis by blast
qed

lemma match_at_None:
  "match_at names s = None \<longleftrightarrow>
     (\<forall>n\<in>set names. \<not> prefix (n @ [bang]) s \<and> \<not> prefix (n @ [quote, bang]) s \<and>
        \<not> prefix (quote # n @ [bang]) s \<and> \<not> prefix (quote # n @ [quote, bang]) s)"
proof (cases "prefix [quote] s")
  case True
  then obtain r where s: "s = quote # r" by (auto simp: prefix_def)
  have "match_at names s = None \<longleftrightarrow>
          match_names names r = None \<and> match_names names s = None"
    by (auto simp: match_at_def s split: option.splits)
  then show ?thesis
    unfolding match_names_None by (auto simp: s)
next
  case False
  then have "\<And>t. \<not> prefix (quote # t) s"
    by (auto simp: prefix_def)
  with False show ?thesis
    by (simp add: match_at_def match_names_None)
qed

lemma match_at_span:
  assumes "match_at names (c # cs) = Some g"
  shows "c # cs = g @ bang # drop (length g) cs"
proof -
  from match_at_Some[OF assms] have "prefix (g @ [bang]) (c # cs)" by blast
  then obtain r where r: "c # cs = (g @ [bang]) @ r" by (auto simp: prefix_def)
  then have "drop (length (g @ [bang])) (c # cs) = r"
    by (metis append_eq_conv_conj)
  then have "drop (length g) cs = r" by simp
  with r show ?thesis by simp
qed

lemma concat_finditer: "concat (map token_text (finditer names s)) = s"
proof (induction names s rule: finditer.induct)
  case (1 names)
  then show ?case by simp
next
  case (2 names c cs)
  show ?case
  proof (cases "match_at names (c # cs)")
    case None
    with 2 show ?thesis by simp
  next
    case (Some g)
    have "concat (map token_text (finditer names (c # cs))) =
          g @ bang # concat (map token_text (finditer names (drop (length g) cs)))"
      using Some by simp
    also have "\<dots> = g @ bang # drop (length g) cs"
      using 2(2)[OF Some] by simp
    also have "\<dots> = c # cs"
      using match_at_span[OF Some] by simp
    finally show ?thesis .
  qed
qed

lemma sub_finditer:
  "sub names repl s = concat (map (\<lambda>t. case t of Lit c \<Rightarrow> [c] | Ref g \<Rightarrow> repl g) (finditer names s))"
  by (induction names s rule: finditer.induct) (auto split: option.splits)

lemma finditer_Ref:
  "Ref g \<in> set (finditer names s) \<Longrightarrow>
     \<exists>q1 n q2. g = q1 @ n @ q2 \<and> n \<in> set names \<and> (q1 = [] \<or> q1 = [quote]) \<and>
           (q2 = [] \<or> q2 = [quote])"
proof (induction names s rule: finditer.induct)
  case (1 names)
  then show ?case by simp
next
  case (2 names c cs)
  show ?case
  proof (cases "match_at names (c # cs)")
    case None
    with 2 show ?thesis by simp
  next
    case (Some g')
    show ?thesis
    proof (cases "g = g'")
      case True
      with match_at_Some[OF Some] show ?thesis by blast
    next
      case False
      with 2 Some show ?thesis by simp
    qed
  qed
qed


lemma strip_quotes_bare:
  assumes "n = [] \<or> (hd n \<noteq> quote \<and> last n \<noteq> quote)"
      and "q1 = [] \<or> q1 = [quote]" and "q2 = [] \<or> q2 = [quote]"
  shows "strip_quotes (q1 @ n @ q2) = n"
proof (cases "n = []")
  case True
  with assms(2,3) show ?thesis by (auto simp: strip_quotes_def)
next
  case False
  with assms(1) have hd: "hd n \<noteq> quote" and last: "last n \<noteq> quote" by auto
  from False hd assms(2) have "dropWhile (\<lambda>c. c = quote) (q1 @ n @ q2) = n @ q2"
    by (cases n) auto
  moreover have "dropWhile (\<lambda>c. c = quote) (rev (n @ q2)) = rev n"
    using False last assms(3) by (cases "rev n") (auto simp: last_rev[symmetric] simp del: last_rev)
  ultimately show ?thesis by (simp add: strip_quotes_def)
qed

subsection \<open>Claim C3: the length limit\<close>

text \<open>
  C3. Cutting a name to the length limit is a total function on strings; the result has at
  most 31 characters and is the name's beginning: exactly its first 31 characters when the
  name is longer than 31, and the name itself otherwise. No character is altered or left
  out before the cut.
\<close>

theorem sanitize_truncates:
  "length (sanitize name) \<le> 31 \<and> prefix (sanitize name) name \<and>
   (31 < length name \<longrightarrow> length (sanitize name) = 31) \<and>
   (length name \<le> 31 \<longrightarrow> sanitize name = name)"
  by (simp add: sanitize_def take_is_prefix)

text \<open>
  C3 at a name of 40 characters and at a short name.
\<close>

theorem sanitize_truncates_witness:
  "31 < length (replicate 40 CHR ''a'') \<and> length (sanitize (replicate 40 CHR ''a'')) = 31 \<and>
   length ''Summary'' \<le> 31 \<and> sanitize ''Summary'' = ''Summary''"
  using sanitize_truncates [of "replicate 40 CHR ''a''"] sanitize_truncates [of "''Summary''"]
  by simp

subsection \<open>Claim C10: no boundary on the left of a name\<close>

text \<open>
  C10. There is a mapping and a formula in which an old name that is only the end of a
  longer identifier before \<open>!\<close> is matched and rewritten: with \<open>Data\<close> mapped to \<open>D2\<close>,
  the formula \<open>=MyData!A1\<close> becomes \<open>=MyD2!A1\<close>, although \<open>MyData\<close> is not a key of the
  mapping. The match found covers \<open>Data!\<close> only.
\<close>

theorem no_left_boundary:
  "replace_sheet_names_in_formula ''=MyData!A1'' [(''Data'', ''D2'')] = ''=MyD2!A1'' \<and>
   map_of [(''Data'', ''D2'')] ''MyData'' = None \<and>
   finditer (sheet_names_pattern [(''Data'', ''D2'')]) ''=MyData!A1'' =
     [Lit CHR ''='', Lit CHR ''M'', Lit CHR ''y'', Ref ''Data'', Lit CHR ''A'', Lit CHR ''1'']"
  by code_simp

subsection \<open>Claim C2: rewriting a formula\<close>

lemma replacer_eq:
  "replacer m g =
     (let new = dict_get m (strip_quotes g) (strip_quotes g)
      in (if CHR '' '' \<in> set new \<or> (\<exists>c\<in>set ''-+()[]''. c \<in> set new)
          then [quote] @ new @ [quote] else new) @ [bang])"
  unfolding replacer_def needs_quotes_def list_ex_iff Let_def by simp

lemma pattern_nonempty: "m \<noteq> [] \<Longrightarrow> sheet_names_pattern m = dict_keys m"
  by (simp add: sheet_names_pattern_def dict_keys_def)

lemma map_of_dict_keys: "n \<in> set (dict_keys m) \<Longrightarrow> \<exists>v. map_of m n = Some v"
  by (induction m) (auto simp: dict_keys_def)

text \<open>
  C2. The matches found in a formula and the characters between them make up the formula,
  and the rewritten formula is obtained by replacing every match (its group 1, quotes
  included, and the \<open>!\<close> after it) and copying every other character. A match is replaced
  by the new name followed by \<open>!\<close>, the new name being the mapping's value for the matched
  text without its quotes (that text itself if the mapping has no such key), put between
  a pair of quotes if and only if it contains a space or one of \<open>- + ( ) [ ]\<close>. When no key
  of a non-empty mapping begins or ends with a quote, every match is an old name, bare or
  with a quote on either side, and the new name is the mapping's value for that old name.
  \<open>OldSheet!A1\<close> with \<open>OldSheet\<close> mapped to \<open>New Sheet\<close> becomes \<open>'New Sheet'!A1\<close>, and
  \<open>=SUM(OldSheet!A1:A2)+1\<close> with \<open>OldSheet\<close> mapped to \<open>Sheet2\<close> becomes
  \<open>=SUM(Sheet2!A1:A2)+1\<close>.
\<close>

theorem rewrite_replaces_matches:
  "concat (map token_text (finditer (sheet_names_pattern m) formula)) = formula \<and>
   replace_sheet_names_in_formula formula m =
     concat (map (\<lambda>t. case t of
                    Lit c \<Rightarrow> [c]
                  | Ref g \<Rightarrow>
                      (let new = dict_get m (strip_quotes g) (strip_quotes g)
                       in (if CHR '' '' \<in> set new \<or> (\<exists>c\<in>set ''-+()[]''. c \<in> set new)
                           then [quote] @ new @ [quote] else new) @ [bang]))
              (finditer (sheet_names_pattern m) formula)) \<and>
   (m \<noteq> [] \<and> (\<forall>k\<in>set (dict_keys m). k = [] \<or> (hd k \<noteq> quote \<and> last k \<noteq> quote)) \<longrightarrow>
      (\<forall>g. Ref g \<in> set (finditer (sheet_names_pattern m) formula) \<longrightarrow>
         (\<exists>old new. map_of m old = Some new \<and>
            (g = old \<or> g = quote # old \<or> g = old @ [quote] \<or> g = quote # old @ [quote]) \<and>
            dict_get m (strip_quotes g) (strip_quotes g) = new))) \<and>
   replace_sheet_names_in_formula ''OldSheet!A1'' [(''OldSheet'', ''New Sheet'')] =
     [quote] @ ''New Sheet'' @ [quote] @ ''!A1'' \<and>
   replace_sheet_names_in_formula ''=SUM(OldSheet!A1:A2)+1'' [(''OldSheet'', ''Sheet2'')] =
     ''=SUM(Sheet2!A1:A2)+1''"
proof -
  have a: "concat (map token_text (finditer (sheet_names_pattern m) formula)) = formula"
    by (rule concat_finditer)
  have b: "replace_sheet_names_in_formula formula m =
     concat (map (\<lambda>t. case t of
                    Lit c \<Rightarrow> [c]
                  | Ref g \<Rightarrow>
                      (let new = dict_get m (strip_quotes g) (strip_quotes g)
                       in (if CHR '' '' \<in> set new \<or> (\<exists>c\<in>set ''-+()[]''. c \<in> set new)
                           then [quote] @ new @ [quote] else new) @ [bang]))
              (finditer (sheet_names_pattern m) formula))"
    unfolding replace_sheet_names_in_formula_def sub_finditer replacer_eq ..
  have c: "\<exists>old new. map_of m old = Some new \<and>
            (g = old \<or> g = quote # old \<or> g = old @ [quote] \<or> g = quote # old @ [quote]) \<and>
            dict_get m (strip_quotes g) (strip_quotes g) = new"
    if ne: "m \<noteq> []"
      and bare: "\<forall>k\<in>set (dict_keys m). k = [] \<or> (hd k \<noteq> quote \<and> last k \<noteq> quote)"
      and g: "Ref g \<in> set (finditer (sheet_names_pattern m) formula)" for g
  proof -
    from finditer_Ref[OF g] obtain q1 n q2 where
      g_eq: "g = q1 @ n @ q2" and n: "n \<in> set (sheet_names_pattern m)"
      and q1: "q1 = [] \<or> q1 = [quote]" and q2: "q2 = [] \<or> q2 = [quote]"
      by blast
    from n ne have nk: "n \<in> set (dict_keys m)" by (simp add: pattern_nonempty)
    with bare have "n = [] \<or> (hd n \<noteq> quote \<and> last n \<noteq> quote)" by blast
    from strip_quotes_bare[OF this q1 q2] have s: "strip_quotes g = n" by (simp add: g_eq)
    from map_of_dict_keys[OF nk] obtain v where v: "map_of m n = Some v" by blast
    have "g = n \<or> g = quote # n \<or> g = n @ [quote] \<or> g = quote # n @ [quote]"
      using g_eq q1 q2 by auto
    with v s show ?thesis by (auto simp: dict_get_def)
  qed
  have d: "replace_sheet_names_in_formula ''OldSheet!A1'' [(''OldSheet'', ''New Sheet'')] =
     [quote] @ ''New Sheet'' @ [quote] @ ''!A1''"
    by code_simp
  have e: "replace_sheet_names_in_formula ''=SUM(OldSheet!A1:A2)+1'' [(''OldSheet'', ''Sheet2'')] =
     ''=SUM(Sheet2!A1:A2)+1''"
    by code_simp
  from a b c d e show ?thesis by blast
qed

text \<open>
  C2 at the formula \<open>='Old'!A1\<close> with \<open>Old\<close> mapped to \<open>New Sheet\<close>.
\<close>

theorem rewrite_replaces_matches_witness:
  "[(''Old'', ''New Sheet'')] \<noteq> [] \<and>
   Ref [quote, CHR ''O'', CHR ''l'', CHR ''d'', quote]
     \<in> set (finditer (sheet_names_pattern [(''Old'', ''New Sheet'')])
               ([CHR ''='', quote] @ ''Old'' @ [quote] @ ''!A1'')) \<and>
   (\<exists>old new. map_of [(''Old'', ''New Sheet'')] old = Some new \<and>
      dict_get [(''Old'', ''New Sheet'')] (strip_quotes [quote, CHR ''O'', CHR ''l'', CHR ''d'', quote])
        (strip_quotes [quote, CHR ''O'', CHR ''l'', CHR ''d'', quote]) = new) \<and>
   replace_sheet_names_in_formula ([CHR ''='', quote] @ ''Old'' @ [quote] @ ''!A1'')
       [(''Old'', ''New Sheet'')] =
     [CHR ''='', quote] @ ''New Sheet'' @ [quote] @ ''!A1''"
proof -
  let ?m = "[(''Old'', ''New Sheet'')]"
  let ?f = "[CHR ''='', quote] @ ''Old'' @ [quote] @ ''!A1''"
  let ?g = "[quote, CHR ''O'', CHR ''l'', CHR ''d'', quote]"
  have ne: "?m \<noteq> []" by simp
  have bare: "\<forall>k\<in>set (dict_keys ?m). k = [] \<or> (hd k \<noteq> quote \<and> last k \<noteq> quote)"
    by (simp add: dict_keys_def)
  have toks: "finditer (sheet_names_pattern ?m) ?f = [Lit CHR ''='', Ref ?g, Lit CHR ''A'', Lit CHR ''1'']"
    by code_simp
  then have g: "Ref ?g \<in> set (finditer (sheet_names_pattern ?m) ?f)" by simp
  have r: "replace_sheet_names_in_formula ?f ?m = [CHR ''='', quote] @ ''New Sheet'' @ [quote] @ ''!A1''"
    by code_simp
  from rewrite_replaces_matches[of ?m ?f] ne bare g
  have "\<exists>old new. map_of ?m old = Some new \<and>
      dict_get ?m (strip_quotes ?g) (strip_quotes ?g) = new"
    by blast
  with ne g r show ?thesis by blast
qed

subsection \<open>Claim C4: what the matcher matches\<close>

text \<open>
  C4 as stated fails: the pattern compiled from the old name \<open>A\<close> matches \<open>'A!\<close> and
  \<open>A'!\<close>, references with a quote on one side only, and both are rewritten.
\<close>

theorem matcher_one_sided_quote_counterexample:
  "match_at (sheet_names_pattern [(''A'', ''B'')]) (quote # ''A!x'') = Some [quote, CHR ''A''] \<and>
   match_at (sheet_names_pattern [(''A'', ''B'')]) (''A'' @ [quote] @ ''!x'') = Some [CHR ''A'', quote] \<and>
   replace_sheet_names_in_formula (quote # ''A!x'') [(''A'', ''B'')] = ''B!x'' \<and>
   replace_sheet_names_in_formula (''A'' @ [quote] @ ''!x'') [(''A'', ''B'')] = ''B!x''"
  by code_simp

text \<open>
  C4, amended. At a position of the text the matcher matches exactly when one of the names
  of the pattern stands there followed by \<open>!\<close>, with an optional quote immediately before
  the name and, independently of it, an optional quote immediately after the name; so a
  reference with a quote on one side only is matched too. The text matched is the name
  with its quotes, followed by \<open>!\<close>. For a non-empty mapping the names of the pattern are
  the mapping's keys. Names are compared character by character: \<open>Data\<close> does not match
  \<open>data!\<close>, and the dot of \<open>A.B\<close> matches only a dot.
\<close>

theorem matcher_matches:
  "((\<exists>g. match_at (sheet_names_pattern m) s = Some g) \<longleftrightarrow>
      (\<exists>n\<in>set (sheet_names_pattern m).
          prefix (n @ [bang]) s \<or> prefix (n @ [quote, bang]) s \<or>
          prefix (quote # n @ [bang]) s \<or> prefix (quote # n @ [quote, bang]) s)) \<and>
   (\<forall>g. match_at (sheet_names_pattern m) s = Some g \<longrightarrow>
      prefix (g @ [bang]) s \<and>
      (\<exists>n\<in>set (sheet_names_pattern m).
          g = n \<or> g = n @ [quote] \<or> g = quote # n \<or> g = quote # n @ [quote])) \<and>
   (m \<noteq> [] \<longrightarrow> set (sheet_names_pattern m) = fst ` set m) \<and>
   match_at (sheet_names_pattern [(''Data'', ''D2'')]) ''data!A1'' = None \<and>
   match_at (sheet_names_pattern [(''A.B'', ''C'')]) ''AxB!A1'' = None \<and>
   match_at (sheet_names_pattern [(''A.B'', ''C'')]) ''A.B!A1'' = Some ''A.B''"
proof -
  let ?P = "\<exists>n\<in>set (sheet_names_pattern m).
          prefix (n @ [bang]) s \<or> prefix (n @ [quote, bang]) s \<or>
          prefix (quote # n @ [bang]) s \<or> prefix (quote # n @ [quote, bang]) s"
  have "match_at (sheet_names_pattern m) s = None \<longleftrightarrow> \<not> ?P"
    unfolding match_at_None by blast
  then have a: "(\<exists>g. match_at (sheet_names_pattern m) s = Some g) \<longleftrightarrow> ?P"
    by (cases "match_at (sheet_names_pattern m) s") auto
  have b: "prefix (g @ [bang]) s \<and>
      (\<exists>n\<in>set (sheet_names_pattern m).
          g = n \<or> g = n @ [quote] \<or> g = quote # n \<or> g = quote # n @ [quote])"
    if "match_at (sheet_names_pattern m) s = Some g" for g
  proof -
    from match_at_Some[OF that] obtain q1 n q2 where
      "g = q1 @ n @ q2" "n \<in> set (sheet_names_pattern m)" "q1 = [] \<or> q1 = [quote]"
      "q2 = [] \<or> q2 = [quote]" and p: "prefix (g @ [bang]) s"
      by blast
    then have "n \<in> set (sheet_names_pattern m) \<and>
      (g = n \<or> g = n @ [quote] \<or> g = quote # n \<or> g = quote # n @ [quote])"
      by auto
    with p show ?thesis by blast
  qed
  have c: "m \<noteq> [] \<longrightarrow> set (sheet_names_pattern m) = fst ` set m"
    by (simp add: pattern_nonempty dict_keys_def)
  have d: "match_at (sheet_names_pattern [(''Data'', ''D2'')]) ''data!A1'' = None"
    by code_simp
  have e: "match_at (sheet_names_pattern [(''A.B'', ''C'')]) ''AxB!A1'' = None"
    by code_simp
  have f: "match_at (sheet_names_pattern [(''A.B'', ''C'')]) ''A.B!A1'' = Some ''A.B''"
    by code_simp
  from a b c d e f show ?thesis by blast
qed

text \<open>
  C4 (amended) at the text \<open>'A!x\<close> and the old name \<open>A\<close>.
\<close>

theorem matcher_matches_witness:
  "[(''A'', ''B'')] \<noteq> [] \<and> set (sheet_names_pattern [(''A'', ''B'')]) = fst ` set [(''A'', ''B'')] \<and>
   match_at (sheet_names_pattern [(''A'', ''B'')]) (quote # ''A!x'') = Some [quote, CHR ''A''] \<and>
   prefix ([quote, CHR ''A''] @ [bang]) (quote # ''A!x'') \<and>
   (\<exists>n\<in>set (sheet_names_pattern [(''A'', ''B'')]). prefix (quote # n @ [bang]) (quote # ''A!x''))"
proof -
  have m: "match_at (sheet_names_pattern [(''A'', ''B'')]) (quote # ''A!x'') = Some [quote, CHR ''A'']"
    by code_simp
  have p: "\<exists>n\<in>set (sheet_names_pattern [(''A'', ''B'')]). prefix (quote # n @ [bang]) (quote # ''A!x'')"
    by (simp add: sheet_names_pattern_def dict_keys_def)
  from matcher_matches[of "[(''A'', ''B'')]" "quote # ''A!x''"] m p show ?thesis
    by simp
qed

subsection \<open>Claim C5: the order of the alternation\<close>

lemma match_names_first:
  "match_names names s = Some g \<longleftrightarrow>
     (\<exists>pre n post q. names = pre @ n # post \<and>
        (\<forall>k\<in>set pre. \<not> prefix (k @ [bang]) s \<and> \<not> prefix (k @ [quote, bang]) s) \<and>
        (q = [] \<or> q = [quote]) \<and> g = n @ q \<and> prefix (n @ q @ [bang]) s)"
proof (induction names)
  case Nil
  then show ?case by simp
next
  case (Cons a names)
  let ?hit = "prefix (a @ [bang]) s \<or> prefix (a @ [quote, bang]) s"
  show ?case
  proof (cases ?hit)
    case True
    then have "\<exists>q. (q = [] \<or> q = [quote]) \<and> prefix (a @ q @ [bang]) s"
    proof
      assume "prefix (a @ [bang]) s"
      then have "([] = [] \<or> [] = [quote]) \<and> prefix (a @ [] @ [bang]) s" by simp
      then show ?thesis by blast
    next
      assume "prefix (a @ [quote, bang]) s"
      then have "([quote] = [] \<or> [quote] = [quote]) \<and> prefix (a @ [quote] @ [bang]) s" by simp
      then show ?thesis by blast
    qed
    then obtain q where q: "q = [] \<or> q = [quote]" and pq: "prefix (a @ q @ [bang]) s"
      by blast
    from pq obtain r where s: "s = a @ q @ bang # r" by (auto simp: prefix_def)
    have mt: "match_tail (drop (length a) s) = Some q"
      using q s by (auto simp: match_tail_def)
    have pa: "prefix a s" using s by simp
    have lhs: "match_names (a # names) s = Some (a @ q)"
      using mt pa by simp
    show ?thesis
    proof
      assume "match_names (a # names) s = Some g"
      with lhs have "g = a @ q" by simp
      with q pq have "a # names = [] @ a # names \<and>
        (\<forall>k\<in>set []. \<not> prefix (k @ [bang]) s \<and> \<not> prefix (k @ [quote, bang]) s) \<and>
        (q = [] \<or> q = [quote]) \<and> g = a @ q \<and> prefix (a @ q @ [bang]) s"
        by simp
      then show "\<exists>pre n post q. a # names = pre @ n # post \<and>
        (\<forall>k\<in>set pre. \<not> prefix (k @ [bang]) s \<and> \<not> prefix (k @ [quote, bang]) s) \<and>
        (q = [] \<or> q = [quote]) \<and> g = n @ q \<and> prefix (n @ q @ [bang]) s"
        by blast
    next
      assume "\<exists>pre n post q. a # names = pre @ n # post \<and>
        (\<forall>k\<in>set pre. \<not> prefix (k @ [bang]) s \<and> \<not> prefix (k @ [quote, bang]) s) \<and>
        (q = [] \<or> q = [quote]) \<and> g = n @ q \<and> prefix (n @ q @ [bang]) s"
      then obtain pre n post q' where
        split: "a # names = pre @ n # post"
        and miss: "\<forall>k\<in>set pre. \<not> prefix (k @ [bang]) s \<and> \<not> prefix (k @ [quote, bang]) s"
        and q': "q' = [] \<or> q' = [quote]" and g: "g = n @ q'" and p': "prefix (n @ q' @ [bang]) s"
        by blast
      have "pre = []"
      proof (cases pre)
        case Nil
        then show ?thesis .
      next
        case (Cons b pre')
        with split have "b = a" by simp
        with Cons miss True show ?thesis by simp
      qed
      with split have "n = a" by simp
      with p' s q q' have "q' = q" by (auto simp: prefix_def)
      with g \<open>n = a\<close> lhs show "match_names (a # names) s = Some g" by simp
    qed
  next
    case False
    then have step: "match_names (a # names) s = match_names names s"
      by (auto simp: match_tail_def prefix_def split: option.splits)
    show ?thesis
    proof
      assume "match_names (a # names) s = Some g"
      with step Cons.IH obtain pre n post q where
        "names = pre @ n # post"
        "\<forall>k\<in>set pre. \<not> prefix (k @ [bang]) s \<and> \<not> prefix (k @ [quote, bang]) s"
        "q = [] \<or> q = [quote]" "g = n @ q" "prefix (n @ q @ [bang]) s"
        by auto
      with False have "a # names = (a # pre) @ n # post \<and>
        (\<forall>k\<in>set (a # pre). \<not> prefix (k @ [bang]) s \<and> \<not> prefix (k @ [quote, bang]) s) \<and>
        (q = [] \<or> q = [quote]) \<and> g = n @ q \<and> prefix (n @ q @ [bang]) s"
        by simp
      then show "\<exists>pre n post q. a # names = pre @ n # post \<and>
        (\<forall>k\<in>set pre. \<not> prefix (k @ [bang]) s \<and> \<not> prefix (k @ [quote, bang]) s) \<and>
        (q = [] \<or> q = [quote]) \<and> g = n @ q \<and> prefix (n @ q @ [bang]) s"
        by blast
    next
      assume "\<exists>pre n post q. a # names = pre @ n # post \<and>
        (\<forall>k\<in>set pre. \<not> prefix (k @ [bang]) s \<and> \<not> prefix (k @ [quote, bang]) s) \<and>
        (q = [] \<or> q = [quote]) \<and> g = n @ q \<and> prefix (n @ q @ [bang]) s"
      then obtain pre n post q where
        split: "a # names = pre @ n # post"
        and miss: "\<forall>k\<in>set pre. \<not> prefix (k @ [bang]) s \<and> \<not> prefix (k @ [quote, bang]) s"
        and q: "q = [] \<or> q = [quote]" and g: "g = n @ q" and p: "prefix (n @ q @ [bang]) s"
        by blast
      have "pre \<noteq> []"
      proof
        assume "pre = []"
        with split have "n = a" by simp
        with p q False show False by auto
      qed
      then obtain pre' where pre: "pre = a # pre'" using split by (cases pre) auto
      with split have "names = pre' @ n # post" by simp
      with miss pre q g p have "match_names names s = Some g"
        using Cons.IH by auto
      with step show "match_names (a # names) s = Some g" by simp
    qed
  qed
qed



lemma collect_names_keys:
  "collect_names new_names idx sheets m0 = Inr m \<Longrightarrow> distinct (map title sheets) \<Longrightarrow>
     title ` set sheets \<inter> set (dict_keys m0) = {} \<Longrightarrow>
     dict_keys m = dict_keys m0 @ map title sheets"
proof (induction sheets arbitrary: idx m0)
  case Nil
  then show ?case by simp
next
  case (Cons s ss)
  from Cons.prems(1) obtain v where v: "new_names idx = Some v"
    by (cases "new_names idx") auto
  let ?m1 = "dict_set m0 (title s) (sanitize v)"
  from v Cons.prems(1) have c: "collect_names new_names (Suc idx) ss ?m1 = Inr m" by simp
  from Cons.prems(3) have k1: "dict_keys ?m1 = dict_keys m0 @ [title s]"
    by (simp add: dict_keys_dict_set)
  have d: "distinct (map title ss)" using Cons.prems(2) by simp
  have i: "title ` set ss \<inter> set (dict_keys ?m1) = {}"
    using Cons.prems(2,3) k1 by auto
  from Cons.IH[OF c d i] k1 show ?case by simp
qed


text \<open>
  C5 as stated fails: for the sheets \<open>Q1\<close> and \<open>Q1 Data\<close>, in this order, the alternation
  lists the shorter name first; and with the names \<open>A\<close> and \<open>A!B\<close> the shorter name wins at
  a position where both match.
\<close>

theorem alternation_not_sorted_counterexample:
  "sheet_names_pattern [(''Q1'', ''X''), (''Q1 Data'', ''Y'')] = [''Q1'', ''Q1 Data''] \<and>
   length (sheet_names_pattern [(''Q1'', ''X''), (''Q1 Data'', ''Y'')] ! 0)
     < length (sheet_names_pattern [(''Q1'', ''X''), (''Q1 Data'', ''Y'')] ! 1) \<and>
   match_at (sheet_names_pattern [(''A'', ''X''), (''A!B'', ''Y'')]) ''A!B!C1'' = Some ''A'' \<and>
   replace_sheet_names_in_formula ''=A!B!C1'' [(''A'', ''X''), (''A!B'', ''Y'')] = ''=X!B!C1''"
  by code_simp

text \<open>
  C5, amended. The alternation lists the old names in the order of the mapping's keys,
  which for a workbook with distinct titles is the order of its sheets; the names are not
  sorted by length. Among the names of the alternation the first one in this order that
  stands at the position and is followed by \<open>!\<close> or by a quote and \<open>!\<close> wins. Hence a
  longer name listed after a name it begins with still wins wherever the shorter name is
  not itself followed by \<open>!\<close> or by a quote and \<open>!\<close>, as \<open>Q1 Data\<close> does over \<open>Q1\<close> in
  \<open>Q1 Data!A1\<close>.
\<close>

theorem alternation_in_mapping_order:
  "(m \<noteq> [] \<longrightarrow> sheet_names_pattern m = map fst m) \<and>
   (collect_names new_names 0 wb [] = Inr m \<and> distinct (map title wb) \<longrightarrow>
      dict_keys m = map title wb) \<and>
   (match_names names s = Some g \<longleftrightarrow>
      (\<exists>pre n post q. names = pre @ n # post \<and>
         (\<forall>k\<in>set pre. \<not> prefix (k @ [bang]) s \<and> \<not> prefix (k @ [quote, bang]) s) \<and>
         (q = [] \<or> q = [quote]) \<and> g = n @ q \<and> prefix (n @ q @ [bang]) s)) \<and>
   (strict_prefix short long \<and> (q = [] \<or> q = [quote]) \<and>
    \<not> prefix (short @ [bang]) (long @ q @ bang # rest) \<and>
    \<not> prefix (short @ [quote, bang]) (long @ q @ bang # rest) \<longrightarrow>
      match_names [short, long] (long @ q @ bang # rest) = Some (long @ q)) \<and>
   match_at (sheet_names_pattern [(''Q1'', ''X''), (''Q1 Data'', ''Y'')]) ''Q1 Data!A1''
     = Some ''Q1 Data''"
proof -
  have a: "m \<noteq> [] \<longrightarrow> sheet_names_pattern m = map fst m"
    by (simp add: pattern_nonempty dict_keys_def)
  have b: "collect_names new_names 0 wb [] = Inr m \<and> distinct (map title wb) \<longrightarrow>
      dict_keys m = map title wb"
    using collect_names_keys[of new_names 0 wb "[]" m] by (simp add: dict_keys_def)
  have c: "match_names names s = Some g \<longleftrightarrow>
      (\<exists>pre n post q. names = pre @ n # post \<and>
         (\<forall>k\<in>set pre. \<not> prefix (k @ [bang]) s \<and> \<not> prefix (k @ [quote, bang]) s) \<and>
         (q = [] \<or> q = [quote]) \<and> g = n @ q \<and> prefix (n @ q @ [bang]) s)"
    by (rule match_names_first)
  have d: "match_names [short, long] (long @ q @ bang # rest) = Some (long @ q)"
    if "q = [] \<or> q = [quote]"
      and "\<not> prefix (short @ [bang]) (long @ q @ bang # rest)"
      and "\<not> prefix (short @ [quote, bang]) (long @ q @ bang # rest)"
  proof -
    let ?s = "long @ q @ bang # rest"
    have "[short, long] = [short] @ long # [] \<and>
         (\<forall>k\<in>set [short]. \<not> prefix (k @ [bang]) ?s \<and> \<not> prefix (k @ [quote, bang]) ?s) \<and>
         (q = [] \<or> q = [quote]) \<and> long @ q = long @ q \<and> prefix (long @ q @ [bang]) ?s"
      using that by simp
    then have "\<exists>pre n post q'. [short, long] = pre @ n # post \<and>
         (\<forall>k\<in>set pre. \<not> prefix (k @ [bang]) ?s \<and> \<not> prefix (k @ [quote, bang]) ?s) \<and>
         (q' = [] \<or> q' = [quote]) \<and> long @ q = n @ q' \<and> prefix (n @ q' @ [bang]) ?s"
      by blast
    then show ?thesis by (simp only: match_names_first)
  qed
  have e: "match_at (sheet_names_pattern [(''Q1'', ''X''), (''Q1 Data'', ''Y'')]) ''Q1 Data!A1''
     = Some ''Q1 Data''"
    by code_simp
  from a b c d e show ?thesis by blast
qed

text \<open>
  C5 (amended) at the workbook with the sheets \<open>Q1\<close> and \<open>Q1 Data\<close>.
\<close>

theorem alternation_in_mapping_order_witness:
  "[(''Q1'', ''X''), (''Q1 Data'', ''Y'')] \<noteq> [] \<and>
   sheet_names_pattern [(''Q1'', ''X''), (''Q1 Data'', ''Y'')] = [''Q1'', ''Q1 Data''] \<and>
   collect_names [0 \<mapsto> ''X'', 1 \<mapsto> ''Y''] 0
      [\<lparr>title = ''Q1'', rows = []\<rparr>, \<lparr>title = ''Q1 Data'', rows = []\<rparr>] []
     = Inr [(''Q1'', ''X''), (''Q1 Data'', ''Y'')] \<and>
   distinct (map title [\<lparr>title = ''Q1'', rows = []\<rparr>, \<lparr>title = ''Q1 Data'', rows = []\<rparr>]) \<and>
   dict_keys [(''Q1'', ''X''), (''Q1 Data'', ''Y'')] = [''Q1'', ''Q1 Data''] \<and>
   strict_prefix ''Q1'' ''Q1 Data'' \<and>
   \<not> prefix (''Q1'' @ [bang]) (''Q1 Data'' @ [] @ bang # ''A1'') \<and>
   \<not> prefix (''Q1'' @ [quote, bang]) (''Q1 Data'' @ [] @ bang # ''A1'') \<and>
   match_names [''Q1'', ''Q1 Data''] (''Q1 Data'' @ [] @ bang # ''A1'') = Some (''Q1 Data'' @ [])"
proof -
  let ?m = "[(''Q1'', ''X''), (''Q1 Data'', ''Y'')]"
  let ?wb = "[\<lparr>title = ''Q1'', rows = []\<rparr>, \<lparr>title = ''Q1 Data'', rows = []\<rparr>]"
  have ne: "?m \<noteq> []" by simp
  have c: "collect_names [0 \<mapsto> ''X'', 1 \<mapsto> ''Y''] 0 ?wb [] = Inr ?m"
    by (simp add: sanitize_def)
  have d: "distinct (map title ?wb)" by simp
  have sp: "strict_prefix ''Q1'' ''Q1 Data''" by (simp add: strict_prefix_def)
  have n1: "\<not> prefix (''Q1'' @ [bang]) (''Q1 Data'' @ [] @ bang # ''A1'')" by simp
  have n2: "\<not> prefix (''Q1'' @ [quote, bang]) (''Q1 Data'' @ [] @ bang # ''A1'')" by simp
  from alternation_in_mapping_order[of ?m "[0 \<mapsto> ''X'', 1 \<mapsto> ''Y'']" ?wb "[]" "[]" "[]"
      "''Q1''" "''Q1 Data''" "[]" "''A1''"] ne c d sp n1 n2
  show ?thesis by (simp add: dict_keys_def)
qed

subsection \<open>The loops over the workbook\<close>











lemma update_titles_frame:
  assumes "list_all2 (\<lambda>s s'. sheet.more s' = sheet.more s \<and> rows s' = rows s) orig visited"
  shows "list_all2 (\<lambda>s s'. sheet.more s' = sheet.more s \<and> rows s' = rows s)
           (orig @ todo) (fst (update_titles m visited todo))"
  using assms
proof (induction m visited todo arbitrary: orig rule: update_titles.induct)
  case (1 m visited)
  then show ?case by simp
next
  case (2 m visited sheet sheets)
  let ?T = "\<lambda>s s'. sheet.more s' = sheet.more s \<and> rows s' = rows s"
  have same: "list_all2 ?T (orig @ sheet # sheets) (visited @ sheet # sheets)"
    using "2.prems" by (intro list_all2_appendI) (simp_all add: list_all2_same)
  show ?case
  proof (cases "dict_item m (title sheet)")
    case (Inl e)
    with same show ?thesis by simp
  next
    case (Inr v)
    show ?thesis
    proof (cases "set_title (map title (visited @ sheet # sheets)) (title sheet) v")
      case (Inl e)
      with Inr same show ?thesis by simp
    next
      case (Inr stored)
      have "list_all2 ?T (orig @ [sheet]) (visited @ [sheet\<lparr>title := stored\<rparr>])"
        using "2.prems" by (intro list_all2_appendI) simp_all
      from "2.IH"[OF \<open>dict_item m (title sheet) = Inr v\<close> Inr this]
      show ?thesis using \<open>dict_item m (title sheet) = Inr v\<close> Inr by simp
    qed
  qed
qed




subsection \<open>Claim C9: what renaming leaves unchanged\<close>

lemma update_cell_frame:
  "data_type (fst (update_cell m c)) = data_type c \<and>
   cell.more (fst (update_cell m c)) = cell.more c \<and>
   (data_type c \<noteq> ''f'' \<longrightarrow> cell_value (fst (update_cell m c)) = cell_value c) \<and>
   (cell_value (fst (update_cell m c)) = cell_value c \<or>
    (\<exists>f. cell_value c = PyStr f \<and>
         cell_value (fst (update_cell m c)) = PyStr (replace_sheet_names_in_formula f m)))"
  by (simp add: update_cell_def Let_def split: pyval.splits)

text \<open>
  C9. Whatever the mapping, and whether or not renaming raises, the workbook in memory
  afterwards has the same sheets in the same order, each with the same attributes other
  than title and rows, the same number of rows and the same number of cells in each row;
  every cell keeps its data type and its attributes other than the value; the value of a
  cell that is not a formula cell is unchanged; and the value of a formula cell is either
  unchanged or the rewriting of the formula text it held.
\<close>

theorem rename_frame:
  "list_all2
     (\<lambda>s s'. sheet.more s' = sheet.more s \<and>
        list_all2 (list_all2
          (\<lambda>c c'. data_type c' = data_type c \<and> cell.more c' = cell.more c \<and>
             (data_type c \<noteq> ''f'' \<longrightarrow> cell_value c' = cell_value c) \<and>
             (cell_value c' = cell_value c \<or>
              (\<exists>f. cell_value c = PyStr f \<and>
                   cell_value c' = PyStr (replace_sheet_names_in_formula f m)))))
          (rows s) (rows s'))
     wb (fst (rename wb m))"
proof -
  let ?C = "\<lambda>c c'. data_type c' = data_type c \<and> cell.more c' = cell.more c \<and>
             (data_type c \<noteq> ''f'' \<longrightarrow> cell_value c' = cell_value c) \<and>
             (cell_value c' = cell_value c \<or>
              (\<exists>f. cell_value c = PyStr f \<and>
                   cell_value c' = PyStr (replace_sheet_names_in_formula f m)))"
  let ?S = "\<lambda>s s'. sheet.more s' = sheet.more s \<and> list_all2 (list_all2 ?C) (rows s) (rows s')"
  let ?T = "\<lambda>s s'. sheet.more s' = sheet.more s \<and> rows s' = rows s"
  have C_refl: "?C c c" for c :: "'a cell_scheme" by simp
  have row: "list_all2 ?C r (fst (for_each (update_cell m) r))" for r :: "'a cell_scheme list"
    by (rule for_each_rel) (simp_all add: update_cell_frame)
  have row_refl: "list_all2 ?C r r" for r :: "'a cell_scheme list"
    by (simp add: list_all2_same)
  have rws: "list_all2 (list_all2 ?C) rs (fst (for_each (for_each (update_cell m)) rs))"
    for rs :: "'a cell_scheme list list"
    by (rule for_each_rel) (rule row, rule row_refl)
  have rws_refl: "list_all2 (list_all2 ?C) rs rs" for rs :: "'a cell_scheme list list"
    using row_refl by (simp add: list_all2_same)
  have S_step: "?S s (fst (update_formulas m s))" for s :: "('a, 'b) sheet_scheme"
    using rws[of "rows s"]
    by (cases "for_each (for_each (update_cell m)) (rows s)") (simp add: update_formulas_def)
  have S_refl: "?S s s" for s :: "('a, 'b) sheet_scheme"
    using rws_refl by simp
  have titles: "list_all2 ?T wb (fst (update_titles m [] wb))"
    using update_titles_frame[of "[]" "[]" wb m] by simp
  have TS: "?S a b" if "?T a b" for a b :: "('a, 'b) sheet_scheme"
    using that rws_refl[of "rows a"] by simp
  show ?thesis
  proof (cases "update_titles m [] wb")
    case (Pair wb1 e)
    with titles have t1: "list_all2 ?T wb wb1" by simp
    show ?thesis
    proof (cases e)
      case (Some err)
      with Pair have "fst (rename wb m) = wb1" by (simp add: rename_def)
      moreover from t1 have "list_all2 ?S wb wb1"
        by (rule list_all2_mono) (rule TS)
      ultimately show ?thesis by simp
    next
      case None
      with Pair have r: "fst (rename wb m) = fst (for_each (update_formulas m) wb1)"
        by (simp add: rename_def)
      have f: "list_all2 ?S wb1 (fst (for_each (update_formulas m) wb1))"
        by (rule for_each_rel) (rule S_step, rule S_refl)
      have "list_all2 ?S wb (fst (for_each (update_formulas m) wb1))"
      proof (rule list_all2_trans[OF _ t1 f])
        fix a b c :: "('a, 'b) sheet_scheme"
        assume "?T a b" and "?S b c"
        then show "?S a c" by simp
      qed
      with r show ?thesis by simp
    qed
  qed
qed

text \<open>
  C9 at a workbook of one sheet with a formula cell and a number cell.
\<close>

theorem rename_frame_witness:
  "rename [\<lparr>title = ''A'', rows = [[\<lparr>data_type = ''f'', cell_value = PyStr ''=A!A1''\<rparr>,
                                      \<lparr>data_type = ''n'', cell_value = PyInt 5\<rparr>]]\<rparr>]
          [(''A'', ''X'')]
     = ([\<lparr>title = ''X'', rows = [[\<lparr>data_type = ''f'', cell_value = PyStr ''=X!A1''\<rparr>,
                                     \<lparr>data_type = ''n'', cell_value = PyInt 5\<rparr>]]\<rparr>], None) \<and>
   data_type \<lparr>data_type = ''n'', cell_value = PyInt 5\<rparr> \<noteq> ''f'' \<and>
   cell_value (rows (fst (rename
          [\<lparr>title = ''A'', rows = [[\<lparr>data_type = ''f'', cell_value = PyStr ''=A!A1''\<rparr>,
                                      \<lparr>data_type = ''n'', cell_value = PyInt 5\<rparr>]]\<rparr>]
          [(''A'', ''X'')]) ! 0) ! 0 ! 1) = PyInt 5"
proof -
  let ?c0 = "\<lparr>data_type = ''f'', cell_value = PyStr ''=A!A1''\<rparr>"
  let ?c1 = "\<lparr>data_type = ''n'', cell_value = PyInt 5\<rparr>"
  let ?wb = "[\<lparr>title = ''A'', rows = [[?c0, ?c1]]\<rparr>]"
  let ?m = "[(''A'', ''X'')]"
  have e: "rename ?wb ?m
     = ([\<lparr>title = ''X'', rows = [[\<lparr>data_type = ''f'', cell_value = PyStr ''=X!A1''\<rparr>, ?c1]]\<rparr>], None)"
    by code_simp
  have n: "data_type ?c1 \<noteq> ''f''" by simp
  note f = rename_frame[of ?m ?wb]
  have s0: "list_all2 (list_all2
          (\<lambda>c c'. data_type c' = data_type c \<and> cell.more c' = cell.more c \<and>
             (data_type c \<noteq> ''f'' \<longrightarrow> cell_value c' = cell_value c) \<and>
             (cell_value c' = cell_value c \<or>
              (\<exists>f. cell_value c = PyStr f \<and>
                   cell_value c' = PyStr (replace_sheet_names_in_formula f ?m)))))
          (rows (?wb ! 0)) (rows (fst (rename ?wb ?m) ! 0))"
    using list_all2_nthD[OF f, of 0] by simp
  have r0: "list_all2
          (\<lambda>c c'. data_type c' = data_type c \<and> cell.more c' = cell.more c \<and>
             (data_type c \<noteq> ''f'' \<longrightarrow> cell_value c' = cell_value c) \<and>
             (cell_value c' = cell_value c \<or>
              (\<exists>f. cell_value c = PyStr f \<and>
                   cell_value c' = PyStr (replace_sheet_names_in_formula f ?m))))
          (rows (?wb ! 0) ! 0) (rows (fst (rename ?wb ?m) ! 0) ! 0)"
    using list_all2_nthD[OF s0, of 0] by simp
  have "data_type (rows (?wb ! 0) ! 0 ! 1) \<noteq> ''f'' \<longrightarrow>
        cell_value (rows (fst (rename ?wb ?m) ! 0) ! 0 ! 1) = cell_value (rows (?wb ! 0) ! 0 ! 1)"
    using list_all2_nthD[OF r0, of 1] by simp
  then have v: "cell_value (rows (fst (rename ?wb ?m) ! 0) ! 0 ! 1) = PyInt 5"
    by simp
  from e n v show ?thesis by (intro conjI)
qed

subsection \<open>Claim C6: a table of new names that lacks a sheet\<close>





subsection \<open>Claim C1: the new titles\<close>




text \<open>The same workbook, processed and exported.\<close>

lemma export_example:
  "export_workbook
       [\<lparr>title = ''A'', rows = [[\<lparr>data_type = ''f'', cell_value = PyStr ''=B!A1''\<rparr>]]\<rparr>,
        \<lparr>title = ''B'', rows = []\<rparr>]
       [0 \<mapsto> replicate 40 CHR ''x'', 1 \<mapsto> ''A'']
     = Inr [\<lparr>title = replicate 31 CHR ''x'',
              rows = [[\<lparr>data_type = ''f'', cell_value = PyStr ''=A!A1''\<rparr>]]\<rparr>,
            \<lparr>title = ''A'', rows = []\<rparr>]"
  by code_simp

text \<open>
  The setter at work in the loop: a name taken by a later sheet, a name given twice, a
  name with an invalid character, an empty name, and a change of case only.
\<close>

lemma title_setter_examples:
  "map title (fst (rename [\<lparr>title = ''A'', rows = []\<rparr>, \<lparr>title = ''B'', rows = []\<rparr>]
                      [(''A'', ''B''), (''B'', ''A'')])) = [''B1'', ''A'']"
  "map title (fst (rename [\<lparr>title = ''A'', rows = []\<rparr>, \<lparr>title = ''B'', rows = []\<rparr>]
                      [(''A'', ''Z''), (''B'', ''Z'')])) = [''Z'', ''Z1'']"
  "map title (fst (rename [\<lparr>title = ''A'', rows = []\<rparr>, \<lparr>title = ''B'', rows = []\<rparr>]
                      [(''A'', ''X''), (''B'', ''Y/Z'')])) = [''X'', ''B'']"
  "snd (rename [\<lparr>title = ''A'', rows = []\<rparr>, \<lparr>title = ''B'', rows = []\<rparr>]
           [(''A'', ''X''), (''B'', ''Y/Z'')]) = Some ValueError"
  "map title (fst (rename [\<lparr>title = ''A'', rows = []\<rparr>, \<lparr>title = ''B'', rows = []\<rparr>]
                      [(''A'', []), (''B'', ''Y'')])) = [''A'', ''B'']"
  "snd (rename [\<lparr>title = ''A'', rows = []\<rparr>, \<lparr>title = ''B'', rows = []\<rparr>]
           [(''A'', []), (''B'', ''Y'')]) = Some ValueError"
  "map title (fst (rename [\<lparr>title = ''a'', rows = []\<rparr>] [(''a'', ''A'')])) = [''A1'']"
  "avoid_duplicate_name [''Sheet'', ''Sheet1'', ''sheet12'', ''X''] ''SHEET'' = ''SHEET13''"
  by code_simp+

subsection \<open>Claim C8: the default names\<close>










subsection \<open>Claim C7: rewriting twice\<close>

lemma dropWhile_none: "\<forall>x\<in>set xs. \<not> P x \<Longrightarrow> dropWhile P xs = xs"
  by (cases xs) auto

lemma strip_quotes_free:
  assumes "quote \<notin> set g"
  shows "strip_quotes g = g"
proof -
  from assms have "\<forall>x\<in>set g. \<not> x = quote" by auto
  then have a: "dropWhile (\<lambda>c. c = quote) g = g" by (rule dropWhile_none)
  from assms have "\<forall>x\<in>set (rev g). \<not> x = quote" by auto
  then have "dropWhile (\<lambda>c. c = quote) (rev g) = rev g" by (rule dropWhile_none)
  with a show ?thesis by (simp add: strip_quotes_def)
qed

lemma strip_quotes_wrapped:
  assumes "quote \<notin> set n"
  shows "strip_quotes (quote # n @ [quote]) = n"
proof -
  have "n = [] \<or> (hd n \<noteq> quote \<and> last n \<noteq> quote)"
  proof (cases "n = []")
    case True
    then show ?thesis by simp
  next
    case False
    then have "hd n \<in> set n" "last n \<in> set n" by simp_all
    with assms show ?thesis by metis
  qed
  from strip_quotes_bare[OF this, of "[quote]" "[quote]"] show ?thesis by simp
qed

lemma hit_filter:
  assumes "quote \<notin> set k" and "q = [] \<or> q = [quote]" and "prefix (k @ q @ [bang]) t"
  shows "prefix (k @ [bang]) (filter (\<lambda>c. c \<noteq> quote) t)"
proof -
  from assms(3) obtain r where "t = k @ q @ bang # r" by (auto simp: prefix_def)
  moreover from assms(1) have "filter (\<lambda>c. c \<noteq> quote) k = k"
    by (simp add: filter_id_conv) metis
  ultimately have "filter (\<lambda>c. c \<noteq> quote) t = k @ bang # filter (\<lambda>c. c \<noteq> quote) r"
    using assms(2) by auto
  then show ?thesis by simp
qed

lemma identity_get:
  assumes "\<forall>(k, v)\<in>set m. v = k"
  shows "dict_get m x x = x"
proof (cases "map_of m x")
  case None
  then show ?thesis by (simp add: dict_get_def)
next
  case (Some v)
  then have "(x, v) \<in> set m" by (rule map_of_SomeD)
  with assms have "v = x" by auto
  with Some show ?thesis by (simp add: dict_get_def)
qed

lemma identity_replacer:
  assumes "\<forall>(k, v)\<in>set m. v = k"
  shows "replacer m g =
     (if needs_quotes (strip_quotes g) then quote # strip_quotes g @ [quote, bang]
      else strip_quotes g @ [bang])"
  by (simp add: replacer_def Let_def identity_get[OF assms])

lemma sub_match:
  assumes "match_at names (g @ bang # X) = Some g"
  shows "sub names R (g @ bang # X) = R g @ sub names R X"
proof (cases g)
  case Nil
  with assms show ?thesis by simp
next
  case (Cons a g')
  with assms have "match_at names (a # g' @ bang # X) = Some (a # g')" by simp
  then show ?thesis by (simp add: Cons)
qed

lemma sub_no_match:
  assumes "match_at names (c # X) = None"
  shows "sub names R (c # X) = c # sub names R X"
  using assms by simp

lemma no_quote_match:
  assumes "match_at names s = Some g" and "quote \<notin> set s"
  shows "\<exists>pre post. names = pre @ g # post \<and>
           (\<forall>k\<in>set pre. \<not> prefix (k @ [bang]) s \<and> \<not> prefix (k @ [quote, bang]) s) \<and>
           prefix (g @ [bang]) s"
proof -
  from assms(2) have "\<not> prefix [quote] s" by (auto simp: prefix_def)
  with assms(1) have "match_names names s = Some g" by (simp add: match_at_def)
  then obtain pre n post q where
    names: "names = pre @ n # post"
    and pre: "\<forall>k\<in>set pre. \<not> prefix (k @ [bang]) s \<and> \<not> prefix (k @ [quote, bang]) s"
    and q: "q = [] \<or> q = [quote]" and g: "g = n @ q" and p: "prefix (n @ q @ [bang]) s"
    unfolding match_names_first by blast
  from p obtain r where "s = n @ q @ bang # r" by (auto simp: prefix_def)
  with assms(2) q have "q = []" by auto
  with names pre g p show ?thesis by auto
qed

lemma sub_filter:
  assumes "\<And>g. R g = (if needs_quotes (strip_quotes g) then quote # strip_quotes g @ [quote, bang]
                       else strip_quotes g @ [bang])"
      and "quote \<notin> set f"
  shows "filter (\<lambda>c. c \<noteq> quote) (sub names R f) = f"
  using assms
proof (induction names R f rule: sub.induct)
  case (1 names repl)
  then show ?case by simp
next
  case (2 names repl c cs)
  show ?case
  proof (cases "match_at names (c # cs)")
    case None
    from "2.prems"(2) have c: "c \<noteq> quote" and cs: "quote \<notin> set cs" by auto
    from "2.IH"(1)[OF None "2.prems"(1) cs] c None show ?thesis by simp
  next
    case (Some g)
    let ?rest = "drop (length g) cs"
    from match_at_span[OF Some] have span: "c # cs = g @ bang # ?rest" .
    with "2.prems"(2) have nq: "quote \<notin> set g" "quote \<notin> set ?rest"
      by (metis Un_iff set_append list.set_intros(2))+
    from nq(1) have sg: "strip_quotes g = g" by (rule strip_quotes_free)
    from nq(1) have fg: "filter (\<lambda>c. c \<noteq> quote) g = g"
      by (simp add: filter_id_conv) metis
    have ih: "filter (\<lambda>c. c \<noteq> quote) (sub names repl ?rest) = ?rest"
      using "2.IH"(2)[OF Some "2.prems"(1) nq(2)] .
    have "sub names repl (c # cs) = repl g @ sub names repl ?rest"
      using Some by simp
    then have "filter (\<lambda>c. c \<noteq> quote) (sub names repl (c # cs)) = g @ bang # ?rest"
      using "2.prems"(1)[of g] sg fg ih by simp
    with span show ?thesis by simp
  qed
qed

lemma sub_idem:
  assumes "\<And>g. R g = (if needs_quotes (strip_quotes g) then quote # strip_quotes g @ [quote, bang]
                       else strip_quotes g @ [bang])"
      and "\<forall>k\<in>set names. quote \<notin> set k"
      and "quote \<notin> set f"
  shows "sub names R (sub names R f) = sub names R f"
  using assms
proof (induction names R f rule: sub.induct)
  case (1 names repl)
  then show ?case by simp
next
  case (2 names repl c cs)
  note R = "2.prems"(1) and nq_names = "2.prems"(2)
  from "2.prems"(3) have c: "c \<noteq> quote" and cs: "quote \<notin> set cs" by auto
  let ?F = "filter (\<lambda>c. c \<noteq> quote)"
  show ?case
  proof (cases "match_at names (c # cs)")
    case None
    let ?Y = "sub names repl cs"
    have fY: "?F ?Y = cs" using R cs by (rule sub_filter)
    have "match_at names (c # ?Y) = None"
      unfolding match_at_None
    proof (intro ballI conjI)
      fix n assume n: "n \<in> set names"
      with nq_names have nqn: "quote \<notin> set n" by blast
      from None n have no: "\<not> prefix (n @ [bang]) (c # cs)"
        unfolding match_at_None by blast
      show "\<not> prefix (n @ [bang]) (c # ?Y)"
      proof
        assume "prefix (n @ [bang]) (c # ?Y)"
        then have "prefix (n @ [] @ [bang]) (c # ?Y)" by simp
        from hit_filter[OF nqn _ this] have "prefix (n @ [bang]) (?F (c # ?Y))" by simp
        with fY c no show False by simp
      qed
      show "\<not> prefix (n @ [quote, bang]) (c # ?Y)"
      proof
        assume "prefix (n @ [quote, bang]) (c # ?Y)"
        then have "prefix (n @ [quote] @ [bang]) (c # ?Y)" by simp
        from hit_filter[OF nqn _ this] have "prefix (n @ [bang]) (?F (c # ?Y))" by simp
        with fY c no show False by simp
      qed
      show "\<not> prefix (quote # n @ [bang]) (c # ?Y)" using c by simp
      show "\<not> prefix (quote # n @ [quote, bang]) (c # ?Y)" using c by simp
    qed
    then have "sub names repl (c # ?Y) = c # sub names repl ?Y" by (rule sub_no_match)
    also have "sub names repl ?Y = ?Y"
      using "2.IH"(1)[OF None R nq_names cs] .
    finally show ?thesis using None by simp
  next
    case (Some g)
    let ?rest = "drop (length g) cs"
    let ?Y = "sub names repl ?rest"
    from match_at_span[OF Some] have span: "c # cs = g @ bang # ?rest" .
    with "2.prems"(3) have nqg: "quote \<notin> set g" and nqr: "quote \<notin> set ?rest"
      by (metis Un_iff set_append list.set_intros(2))+
    from nqg have sg: "strip_quotes g = g" by (rule strip_quotes_free)
    from nqg have fg: "?F g = g" by (simp add: filter_id_conv) metis
    have fY: "?F ?Y = ?rest" using R nqr by (rule sub_filter)
    have ih: "sub names repl ?Y = ?Y"
      using "2.IH"(2)[OF Some R nq_names nqr] .
    have out: "sub names repl (c # cs) = repl g @ ?Y" using Some by simp
    from no_quote_match[OF Some "2.prems"(3)] obtain pre post where
      names: "names = pre @ g # post"
      and pre: "\<forall>k\<in>set pre. \<not> prefix (k @ [bang]) (c # cs) \<and> \<not> prefix (k @ [quote, bang]) (c # cs)"
      by blast
    have miss: "\<not> prefix (k @ [bang]) T \<and> \<not> prefix (k @ [quote, bang]) T"
      if k: "k \<in> set pre" and T: "?F T = c # cs" for k T
    proof -
      from k names nq_names have nqk: "quote \<notin> set k" by auto
      from pre k have no: "\<not> prefix (k @ [bang]) (c # cs)" by blast
      have "\<not> prefix (k @ [bang]) T"
      proof
        assume "prefix (k @ [bang]) T"
        then have "prefix (k @ [] @ [bang]) T" by simp
        from hit_filter[OF nqk _ this] T no show False by simp
      qed
      moreover have "\<not> prefix (k @ [quote, bang]) T"
      proof
        assume "prefix (k @ [quote, bang]) T"
        then have "prefix (k @ [quote] @ [bang]) T" by simp
        from hit_filter[OF nqk _ this] T no show False by simp
      qed
      ultimately show ?thesis by blast
    qed
    show ?thesis
    proof (cases "needs_quotes g")
      case False
      with R[of g] sg have Rg: "repl g = g @ [bang]" by simp
      let ?T = "g @ bang # ?Y"
      have FT: "?F ?T = c # cs" using fg fY span by simp
      have nq_start: "\<not> prefix [quote] ?T"
        using nqg by (cases g) auto
      have "match_names names ?T = Some g"
        unfolding match_names_first
      proof (intro exI conjI)
        show "names = pre @ g # post" by (rule names)
        show "\<forall>k\<in>set pre. \<not> prefix (k @ [bang]) ?T \<and> \<not> prefix (k @ [quote, bang]) ?T"
          using miss[OF _ FT] by blast
        show "[] = [] \<or> [] = [quote]" by simp
        show "g = g @ []" by simp
        show "prefix (g @ [] @ [bang]) ?T" by simp
      qed
      with nq_start have "match_at names ?T = Some g" by (simp add: match_at_def)
      then have "sub names repl ?T = repl g @ sub names repl ?Y" by (rule sub_match)
      with Rg ih out show ?thesis by simp
    next
      case True
      with R[of g] sg have Rg: "repl g = quote # g @ [quote, bang]" by simp
      let ?g' = "quote # g @ [quote]"
      let ?T = "g @ quote # bang # ?Y"
      have FT: "?F ?T = c # cs" using fg fY span by simp
      have "match_names names ?T = Some (g @ [quote])"
        unfolding match_names_first
      proof (intro exI conjI)
        show "names = pre @ g # post" by (rule names)
        show "\<forall>k\<in>set pre. \<not> prefix (k @ [bang]) ?T \<and> \<not> prefix (k @ [quote, bang]) ?T"
          using miss[OF _ FT] by blast
        show "[quote] = [] \<or> [quote] = [quote]" by simp
        show "g @ [quote] = g @ [quote]" by simp
        show "prefix (g @ [quote] @ [bang]) ?T" by simp
      qed
      then have "match_at names (quote # ?T) = Some ?g'" by (simp add: match_at_def)
      then have "match_at names (?g' @ bang # ?Y) = Some ?g'" by simp
      then have s: "sub names repl (?g' @ bang # ?Y) = repl ?g' @ sub names repl ?Y"
        by (rule sub_match)
      have "strip_quotes ?g' = g" using nqg by (rule strip_quotes_wrapped)
      with R[of ?g'] True have "repl ?g' = quote # g @ [quote, bang]" by simp
      with s Rg ih out show ?thesis by simp
    qed
  qed
qed

text \<open>
  C7 as stated fails: with \<open>A\<close> mapped to itself, the formula \<open>=''A!B1\<close> is rewritten to
  \<open>='A!B1\<close> by the first pass and to \<open>=A!B1\<close> by the second.
\<close>

theorem identity_rewrite_counterexample:
  "replace_sheet_names_in_formula ([CHR ''='', quote, quote] @ ''A!B1'') [(''A'', ''A'')]
     = [CHR ''='', quote] @ ''A!B1'' \<and>
   replace_sheet_names_in_formula ([CHR ''='', quote] @ ''A!B1'') [(''A'', ''A'')] = ''=A!B1'' \<and>
   replace_sheet_names_in_formula
      (replace_sheet_names_in_formula ([CHR ''='', quote, quote] @ ''A!B1'') [(''A'', ''A'')])
      [(''A'', ''A'')]
     \<noteq> replace_sheet_names_in_formula ([CHR ''='', quote, quote] @ ''A!B1'') [(''A'', ''A'')]"
  by code_simp

text \<open>
  C7, amended. When every old name maps to itself, no old name contains a quote and the
  formula contains no quote, rewriting the formula a second time with the same mapping
  returns the result of the first pass unchanged. For the mapping that exchanges \<open>A\<close> and
  \<open>B\<close> there is a formula, \<open>=A!C1\<close>, for which the second pass gives a result different
  from the first.
\<close>

theorem rewrite_twice:
  "((\<forall>(k, v)\<in>set m. v = k) \<and> (\<forall>k\<in>set (dict_keys m). quote \<notin> set k) \<and> quote \<notin> set formula \<longrightarrow>
      replace_sheet_names_in_formula (replace_sheet_names_in_formula formula m) m =
        replace_sheet_names_in_formula formula m) \<and>
   replace_sheet_names_in_formula ''=A!C1'' [(''A'', ''B''), (''B'', ''A'')] = ''=B!C1'' \<and>
   replace_sheet_names_in_formula ''=B!C1'' [(''A'', ''B''), (''B'', ''A'')] = ''=A!C1'' \<and>
   replace_sheet_names_in_formula
      (replace_sheet_names_in_formula ''=A!C1'' [(''A'', ''B''), (''B'', ''A'')])
      [(''A'', ''B''), (''B'', ''A'')]
     \<noteq> replace_sheet_names_in_formula ''=A!C1'' [(''A'', ''B''), (''B'', ''A'')]"
proof -
  have a: "replace_sheet_names_in_formula (replace_sheet_names_in_formula formula m) m =
        replace_sheet_names_in_formula formula m"
    if ident: "\<forall>(k, v)\<in>set m. v = k"
      and keys: "\<forall>k\<in>set (dict_keys m). quote \<notin> set k"
      and f: "quote \<notin> set formula"
  proof -
    have names: "\<forall>k\<in>set (sheet_names_pattern m). quote \<notin> set k"
      using keys by (simp add: sheet_names_pattern_def)
    have "sub (sheet_names_pattern m) (replacer m)
            (sub (sheet_names_pattern m) (replacer m) formula) =
          sub (sheet_names_pattern m) (replacer m) formula"
      using identity_replacer[OF ident] names f by (rule sub_idem)
    then show ?thesis by (simp add: replace_sheet_names_in_formula_def)
  qed
  have b: "replace_sheet_names_in_formula ''=A!C1'' [(''A'', ''B''), (''B'', ''A'')] = ''=B!C1''"
    by code_simp
  have c: "replace_sheet_names_in_formula ''=B!C1'' [(''A'', ''B''), (''B'', ''A'')] = ''=A!C1''"
    by code_simp
  have d: "replace_sheet_names_in_formula
      (replace_sheet_names_in_formula ''=A!C1'' [(''A'', ''B''), (''B'', ''A'')])
      [(''A'', ''B''), (''B'', ''A'')]
     \<noteq> replace_sheet_names_in_formula ''=A!C1'' [(''A'', ''B''), (''B'', ''A'')]"
    by (simp only: b c) simp
  from a b c d show ?thesis by blast
qed

text \<open>
  C7 (amended) at the formula \<open>=A B!C1\<close> with \<open>A B\<close> mapped to itself: the first pass
  puts the name in quotes, the second changes nothing.
\<close>

theorem rewrite_twice_witness:
  "quote \<notin> set ''=A B!C1'' \<and>
   replace_sheet_names_in_formula ''=A B!C1'' [(''A B'', ''A B'')]
     = [CHR ''='', quote] @ ''A B'' @ [quote] @ ''!C1'' \<and>
   replace_sheet_names_in_formula
      (replace_sheet_names_in_formula ''=A B!C1'' [(''A B'', ''A B'')]) [(''A B'', ''A B'')]
     = replace_sheet_names_in_formula ''=A B!C1'' [(''A B'', ''A B'')]"
proof -
  have h1: "\<forall>(k, v)\<in>set [(''A B'', ''A B'')]. v = k" by simp
  have h2: "\<forall>k\<in>set (dict_keys [(''A B'', ''A B'')]). quote \<notin> set k"
    by (simp add: dict_keys_def)
  have h3: "quote \<notin> set ''=A B!C1''" by simp
  have e: "replace_sheet_names_in_formula ''=A B!C1'' [(''A B'', ''A B'')]
     = [CHR ''='', quote] @ ''A B'' @ [quote] @ ''!C1''"
    by code_simp
  note i = rewrite_twice[of "[(''A B'', ''A B'')]" "''=A B!C1''", THEN conjunct1, THEN mp,
      OF conjI[OF h1 conjI[OF h2 h3]]]
  from h3 e i show ?thesis by (intro conjI)
qed

end
